theory Spec2Isabelle
  imports Main "HOL-Library.Word"
begin

unbundle bit_operations_syntax

section \<open>File helpers of the shared library (\<^verbatim>\<open>shared/files/helpers.c\<close>)\<close>

text \<open>
  The file defines three functions, all inside \<^verbatim>\<open>#ifndef CROSS\<close>: the definitions below
  are the ones a build without \<^verbatim>\<open>CROSS\<close> compiles. Each body calls \<^verbatim>\<open>print\<close> on a string
  literal and, for the two getters, returns the constant 0 as a \<^verbatim>\<open>char*\<close>.

  \<^item> \<^verbatim>\<open>print\<close> comes from \<^verbatim>\<open>syscalls/syscalls.h\<close>, which is not among the sources. It is
    taken as a parameter: a function from the text printed and the state of the machine
    (of any type \<open>'w\<close>) to the state afterwards. Every theorem holds for every such function.
  \<^item> \<^verbatim>\<open>dir_traverse\<close> is the callback type declared in \<^verbatim>\<open>helpers.h\<close>, also absent. A callback
    is modelled as a state transformer taking its arguments (of any type \<open>'a\<close>).
  \<^item> A \<^verbatim>\<open>char*\<close> is an address of the 64-bit machine; the null pointer is address 0.
\<close>

type_synonym char_ptr = "64 word"

type_synonym 'w print_fn = "string \<Rightarrow> 'w \<Rightarrow> 'w"

type_synonym ('a, 'w) dir_traverse = "'a \<Rightarrow> 'w \<Rightarrow> 'w"

definition NULL :: char_ptr where
  "NULL = 0"

definition traverse_msg :: string where
  "traverse_msg = ''[FS implementation error] Traverse directory not implemented for [Osbyte]''"

definition current_dir_msg :: string where
  "current_dir_msg = ''[FS implementation error] Current directory not implemented for [Osbyte]''"

definition home_dir_msg :: string where
  "home_dir_msg = ''[FS implementation error] Home directory not implemented for [Osbyte]''"

text \<open>
  \<^verbatim>\<open>void traverse_directory(char *directory, bool recursive, dir_traverse func)\<close>:
  the body is the single call of \<^verbatim>\<open>print\<close>.
\<close>

definition traverse_directory ::
  "'w print_fn \<Rightarrow> char_ptr \<Rightarrow> bool \<Rightarrow> ('a, 'w) dir_traverse \<Rightarrow> 'w \<Rightarrow> 'w" where
  "traverse_directory print directory recursive func w = print traverse_msg w"

text \<open>
  \<^verbatim>\<open>char* get_current_dir()\<close> and \<^verbatim>\<open>char* gethomedir()\<close>: print, then \<^verbatim>\<open>return 0\<close>.
  The model returns the pointer together with the state after the call.
\<close>

definition get_current_dir :: "'w print_fn \<Rightarrow> 'w \<Rightarrow> char_ptr \<times> 'w" where
  "get_current_dir print w = (0, print current_dir_msg w)"

definition gethomedir :: "'w print_fn \<Rightarrow> 'w \<Rightarrow> char_ptr \<times> 'w" where
  "gethomedir print w = (0, print home_dir_msg w)"

text \<open>
  A concrete machine state for running the functions: the text on the console so far and
  a counter that a callback may change.
\<close>

record console_state =
  console :: "string list"
  visited :: nat

definition console_print :: "console_state print_fn" where
  "console_print msg w = w\<lparr>console := console w @ [msg]\<rparr>"

definition count_entry :: "(string \<times> string, console_state) dir_traverse" where
  "count_entry entry w = w\<lparr>visited := Suc (visited w)\<rparr>"

section \<open>Routing table\<close>

text \<open>
  The routing code of the network stack is not among the sources. The definitions of this
  section follow sections 3 and 4.2 of the specification: a route is
  ``destination prefix, prefix length, next-hop address or directly connected, interface,
  metric'', and \<open>lookup(address)\<close> returns a route or ``unreachable''. Addresses are machine
  words of any width, so that one definition serves both address families.
\<close>

text \<open>Modelled from the spec: the route entry of the absent routing table (section 3,
  ``Route''). A next hop of \<open>None\<close> is a directly connected route.\<close>

record 'addr route =
  prefix :: 'addr
  prefix_len :: nat
  next_hop :: "'addr option"
  ifindex :: nat
  metric :: nat

text \<open>Modelled from the spec: the network part of an address under a prefix length, the
  leading \<open>n\<close> bits (the absent prefix comparison of the lookup).\<close>

definition net_bits :: "nat \<Rightarrow> 'a::len word \<Rightarrow> 'a word" where
  "net_bits n a = drop_bit (LENGTH('a) - n) a"

text \<open>Modelled from the spec: when a route's prefix matches a destination (absent from the
  sources). The specification does not say what a prefix length beyond the address width
  means; such a route matches nothing here.\<close>

definition route_matches :: "'a::len word route \<Rightarrow> 'a word \<Rightarrow> bool" where
  "route_matches r a =
     (prefix_len r \<le> LENGTH('a)
      \<and> net_bits (prefix_len r) a = net_bits (prefix_len r) (prefix r))"

text \<open>Modelled from the spec: the order of selection of the absent lookup, ``the longest
  matching prefix; ties broken by lowest metric then interface index''.\<close>

definition preferred :: "'addr route \<Rightarrow> 'addr route \<Rightarrow> bool" where
  "preferred r b =
     (prefix_len b < prefix_len r
      \<or> (prefix_len r = prefix_len b
          \<and> (metric r < metric b \<or> (metric r = metric b \<and> ifindex r < ifindex b))))"

text \<open>Modelled from the spec: the scan of the absent \<open>lookup\<close> over the inserted routes,
  keeping the best matching route seen so far.\<close>

fun select_route ::
  "'a::len word route option \<Rightarrow> 'a word route list \<Rightarrow> 'a word \<Rightarrow> 'a word route option" where
  "select_route best [] a = best"
| "select_route best (r # rs) a =
     (if route_matches r a \<and> (case best of None \<Rightarrow> True | Some b \<Rightarrow> preferred r b)
      then select_route (Some r) rs a
      else select_route best rs a)"

text \<open>Modelled from the spec: \<open>lookup(address) \<rightarrow> route | unreachable\<close> of section 4.2, absent
  from the sources; \<open>None\<close> is ``unreachable''.\<close>

definition lookup :: "'a::len word route list \<Rightarrow> 'a word \<Rightarrow> 'a word route option" where
  "lookup table a = select_route None table a"

text \<open>An IPv4 address from its four decimal parts, and the two routes of the
  specification's example.\<close>

definition ipv4 :: "nat \<Rightarrow> nat \<Rightarrow> nat \<Rightarrow> nat \<Rightarrow> 32 word" where
  "ipv4 a b c d = word_of_nat (((a * 256 + b) * 256 + c) * 256 + d)"

definition net_10 :: "32 word route" where
  "net_10 = \<lparr>prefix = ipv4 10 0 0 0, prefix_len = 8, next_hop = Some (ipv4 192 168 0 1),
             ifindex = 1, metric = 0\<rparr>"

definition net_10_1 :: "32 word route" where
  "net_10_1 = \<lparr>prefix = ipv4 10 1 0 0, prefix_len = 16, next_hop = None,
               ifindex = 2, metric = 5\<rparr>"

section \<open>DNS resolver\<close>

text \<open>
  The resolver is not among the sources either. The definitions of this section follow
  sections 3 and 4.7 of the specification. A requester is a value of any type \<open>'w\<close>, the
  resolved data a value of any type \<open>'d\<close>; time is a count of seconds. The state holds
  the cache, the table of pending queries, and two logs that make the effects visible:
  the queries put on the network and the notifications given to waiters.
\<close>

text \<open>Modelled from the spec: the key ``name, record type'' of the absent cache and
  pending-query table.\<close>

type_synonym dns_key = "string \<times> 16 word"

text \<open>Modelled from the spec: what a waiter of the absent resolver is notified with, the
  result of a valid reply or a timeout failure.\<close>

datatype 'd dns_result = Records 'd | Timeout

text \<open>Modelled from the spec: what a call of the absent \<open>resolve\<close> returns at once, the cached
  data, or nothing yet (the caller waits for the notification).\<close>

datatype 'd dns_reply = Hit 'd | Waiting

text \<open>Modelled from the spec: the state of the absent resolver. A cache entry is
  ``name, record type \<rightarrow> resolved data, expiry timestamp''; a pending query is
  ``name, type, list of waiting requesters'', with the number of retries made so far.\<close>

record ('d, 'w) dns_state =
  cache :: "(dns_key \<times> 'd \<times> nat) list"
  pending :: "(dns_key \<times> 'w list \<times> nat) list"
  wire :: "dns_key list"
  notified :: "('w \<times> 'd dns_result) list"

text \<open>Modelled from the spec: the absent resolver before any call, with nothing cached and
  nothing pending.\<close>

definition dns_init :: "('d, 'w) dns_state" where
  "dns_init = \<lparr>cache = [], pending = [], wire = [], notified = []\<rparr>"

text \<open>Modelled from the spec: ``once its expiry has passed'' (the absent expiry test). The
  entry is still served at the second of its expiry, as the specification's example asks
  only for second \<open>T + 61\<close> of a time-to-live of 60.\<close>

definition expired :: "nat \<Rightarrow> nat \<Rightarrow> bool" where
  "expired now expiry = (expiry < now)"

text \<open>Modelled from the spec: removal of a key's entry from the absent cache or pending
  table.\<close>

definition remove_key :: "'k \<Rightarrow> ('k \<times> 'v) list \<Rightarrow> ('k \<times> 'v) list" where
  "remove_key k xs = filter (\<lambda>e. fst e \<noteq> k) xs"

text \<open>Modelled from the spec: ``the caller is added to its waiter list'' (absent from the
  sources).\<close>

definition add_waiter ::
  "dns_key \<Rightarrow> 'w \<Rightarrow> (dns_key \<times> 'w list \<times> nat) list \<Rightarrow> (dns_key \<times> 'w list \<times> nat) list" where
  "add_waiter k w ps =
     map (\<lambda>(k', ws, n). if k' = k then (k', ws @ [w], n) else (k', ws, n)) ps"

text \<open>Modelled from the spec: counting one more retry of a pending query (absent from the
  sources).\<close>

definition count_retry ::
  "dns_key \<Rightarrow> (dns_key \<times> 'w list \<times> nat) list \<Rightarrow> (dns_key \<times> 'w list \<times> nat) list" where
  "count_retry k ps = map (\<lambda>(k', ws, n). if k' = k then (k', ws, Suc n) else (k', ws, n)) ps"

text \<open>Modelled from the spec: the miss path of the absent \<open>resolve\<close>. ``On miss, checks the
  pending-query table; if an identical query is already outstanding, the caller is added
  to its waiter list instead of issuing a duplicate network query. Otherwise issues a
  query to the configured resolver.''\<close>

definition query_or_wait ::
  "dns_key \<Rightarrow> 'w \<Rightarrow> ('d, 'w) dns_state \<Rightarrow> 'd dns_reply \<times> ('d, 'w) dns_state" where
  "query_or_wait k w s =
     (case map_of (pending s) k of
        Some q \<Rightarrow> (Waiting, s\<lparr>pending := add_waiter k w (pending s)\<rparr>)
      | None \<Rightarrow> (Waiting, s\<lparr>pending := pending s @ [(k, [w], 0)], wire := wire s @ [k]\<rparr>))"

text \<open>Modelled from the spec: \<open>resolve(name, type)\<close> of section 4.7, absent from the sources.
  ``Checks cache first (expired entries treated as absent)''; an expired entry ``is
  instead evicted''.\<close>

definition resolve ::
  "dns_key \<Rightarrow> 'w \<Rightarrow> nat \<Rightarrow> ('d, 'w) dns_state \<Rightarrow> 'd dns_reply \<times> ('d, 'w) dns_state" where
  "resolve k w now s =
     (case map_of (cache s) k of
        Some (d, expiry) \<Rightarrow>
          if expired now expiry then query_or_wait k w (s\<lparr>cache := remove_key k (cache s)\<rparr>)
          else (Hit d, s)
      | None \<Rightarrow> query_or_wait k w s)"

text \<open>Modelled from the spec: the absent handler of a reply. ``On a valid reply, populates
  the cache with the provided time-to-live, notifies all waiters with the result, and
  removes the pending entry.'' A reply that answers no pending query is not valid and is
  dropped.\<close>

definition on_reply ::
  "dns_key \<Rightarrow> 'd \<Rightarrow> nat \<Rightarrow> nat \<Rightarrow> ('d, 'w) dns_state \<Rightarrow> ('d, 'w) dns_state" where
  "on_reply k d ttl now s =
     (case map_of (pending s) k of
        None \<Rightarrow> s
      | Some (ws, n) \<Rightarrow>
          s\<lparr>cache := (k, d, now + ttl) # remove_key k (cache s),
            pending := remove_key k (pending s),
            notified := notified s @ map (\<lambda>w. (w, Records d)) ws\<rparr>)"

text \<open>Modelled from the spec: the absent handler of a query's timer. ``Retrying up to a
  bounded count with increasing timeout on no response, and on final timeout notifies all
  waiters with a timeout failure.'' The bound is a parameter; the timer's deadlines are
  left to whoever fires the event.\<close>

definition on_no_response :: "nat \<Rightarrow> dns_key \<Rightarrow> ('d, 'w) dns_state \<Rightarrow> ('d, 'w) dns_state" where
  "on_no_response retry_limit k s =
     (case map_of (pending s) k of
        None \<Rightarrow> s
      | Some (ws, n) \<Rightarrow>
          if n < retry_limit
          then s\<lparr>pending := count_retry k (pending s), wire := wire s @ [k]\<rparr>
          else s\<lparr>pending := remove_key k (pending s),
                 notified := notified s @ map (\<lambda>w. (w, Timeout)) ws\<rparr>)"

text \<open>Modelled from the spec: replacement in the ``bounded cache'' (absent from the
  sources). The specification names neither the capacity nor the victim, so the
  replacement of any entry at any moment is an event of its own.\<close>

definition evict :: "dns_key \<Rightarrow> ('d, 'w) dns_state \<Rightarrow> ('d, 'w) dns_state" where
  "evict k s = s\<lparr>cache := remove_key k (cache s)\<rparr>"

text \<open>Modelled from the spec: the entry points of the absent resolver, which section 5 has
  run one after the other, never interleaved: a call of \<open>resolve\<close> by a requester at a time,
  a reply with its data and time-to-live at a time, a timer that found no response, and a
  cache replacement.\<close>

datatype ('d, 'w) dns_event =
    Resolve dns_key 'w nat
  | Reply dns_key 'd nat nat
  | NoResponse dns_key
  | Evict dns_key

text \<open>Modelled from the spec: one entry point of the absent resolver run on a state.\<close>

fun dns_step :: "nat \<Rightarrow> ('d, 'w) dns_state \<Rightarrow> ('d, 'w) dns_event \<Rightarrow> ('d, 'w) dns_state" where
  "dns_step retry_limit s (Resolve k w now) = snd (resolve k w now s)"
| "dns_step retry_limit s (Reply k d ttl now) = on_reply k d ttl now s"
| "dns_step retry_limit s (NoResponse k) = on_no_response retry_limit k s"
| "dns_step retry_limit s (Evict k) = evict k s"

text \<open>Modelled from the spec: the state the absent resolver reaches from its initial state
  through a sequence of events.\<close>

definition dns_run :: "nat \<Rightarrow> ('d, 'w) dns_event list \<Rightarrow> ('d, 'w) dns_state" where
  "dns_run retry_limit evs = foldl (dns_step retry_limit) dns_init evs"

text \<open>The invariant of the reachable states: no key has two pending queries, and no key is
  cached while a query for it is pending.\<close>

definition single_flight :: "('d, 'w) dns_state \<Rightarrow> bool" where
  "single_flight s =
     (distinct (map fst (pending s)) \<and> fst ` set (cache s) \<inter> fst ` set (pending s) = {})"

text \<open>A key for the examples.\<close>

definition example_org :: dns_key where
  "example_org = (''example.org'', 1)"

section \<open>Properties of the file helpers\<close>

text \<open>
  Claim C8. In a build without \<^verbatim>\<open>CROSS\<close>, every call of \<^verbatim>\<open>get_current_dir\<close> and every call of
  \<^verbatim>\<open>gethomedir\<close> returns the null pointer, address 0, whatever the state of the machine and
  whatever \<^verbatim>\<open>print\<close> does: no caller receives the address of a directory string.
\<close>

theorem getters_return_null:
  "fst (get_current_dir print w) = NULL \<and> fst (get_current_dir print w) = 0
   \<and> fst (gethomedir print w) = NULL \<and> fst (gethomedir print w) = 0"
  by (simp add: get_current_dir_def gethomedir_def NULL_def)

text \<open>
  Claim C9. For every directory, recursive flag and callback, \<^verbatim>\<open>traverse_directory\<close> does
  nothing but print its fixed message: the state after the call is the state \<^verbatim>\<open>print\<close>
  produces from the state before, so the callback contributes nothing to it. On the
  concrete console the message is appended to the output, and the counter of a callback
  that counts every entry it is given stays where it was.
\<close>

theorem traverse_directory_only_prints:
  "traverse_directory print directory recursive func w = print traverse_msg w
   \<and> traverse_directory console_print directory recursive func' cw
       = cw\<lparr>console := console cw @ [traverse_msg]\<rparr>
   \<and> visited (traverse_directory console_print directory recursive count_entry cw) = visited cw"
  by (simp add: traverse_directory_def console_print_def)

text \<open>
  Claim C10. Two calls of \<^verbatim>\<open>traverse_directory\<close> from the same state, with any two
  argument tuples (the callbacks may even take arguments of different types), do the same
  thing: each of them ends in the state that \<^verbatim>\<open>print\<close> produces for the one fixed message,
  so the two end in the same state and the arguments have no influence on what the
  function does. On the concrete console both calls append the same message, and only
  that, to the output, and neither moves the counter of the callback.
\<close>

theorem traverse_directory_ignores_arguments:
  "traverse_directory print d1 r1 (f1 :: ('a, 'w) dir_traverse) w = print traverse_msg w
   \<and> traverse_directory print d2 r2 (f2 :: ('b, 'w) dir_traverse) w = print traverse_msg w
   \<and> traverse_directory print d1 r1 f1 w = traverse_directory print d2 r2 f2 w
   \<and> traverse_directory console_print d1 r1 (g1 :: ('a, console_state) dir_traverse) cw
       = cw\<lparr>console := console cw @ [traverse_msg]\<rparr>
   \<and> traverse_directory console_print d2 r2 (g2 :: ('b, console_state) dir_traverse) cw
       = cw\<lparr>console := console cw @ [traverse_msg]\<rparr>
   \<and> console (traverse_directory console_print d1 r1 g1 cw)
       = console (traverse_directory console_print d2 r2 g2 cw)
   \<and> visited (traverse_directory console_print d1 r1 g1 cw) = visited cw
   \<and> visited (traverse_directory console_print d2 r2 g2 cw) = visited cw"
  by (simp add: traverse_directory_def console_print_def)

section \<open>Properties of the route lookup\<close>

text \<open>The order of selection is transitive, and so is its complement: the route kept by
  the scan is never beaten by a route seen earlier or later.\<close>

lemma preferred_trans: "preferred a b \<Longrightarrow> preferred b c \<Longrightarrow> preferred a c"
  by (auto simp: preferred_def)

lemma not_preferred_trans: "\<not> preferred a b \<Longrightarrow> \<not> preferred b c \<Longrightarrow> \<not> preferred a c"
  by (auto simp: preferred_def)

lemma preferred_not_sym: "preferred a b \<Longrightarrow> \<not> preferred b a"
  by (auto simp: preferred_def)

lemma select_route_None:
  "(select_route best rs a = None) = (best = None \<and> (\<forall>r \<in> set rs. \<not> route_matches r a))"
  by (induction rs arbitrary: best) (auto split: option.splits)

lemma select_route_mem:
  "select_route best rs a = Some r \<Longrightarrow> best = Some r \<or> (r \<in> set rs \<and> route_matches r a)"
  by (induction rs arbitrary: best) (auto split: if_splits)

lemma select_route_best:
  "select_route (Some b) rs a = Some r \<Longrightarrow> \<not> preferred b r"
proof (induction rs arbitrary: b)
  case Nil
  then show ?case by (simp add: preferred_def)
next
  case (Cons x xs)
  show ?case
  proof (cases "route_matches x a \<and> preferred x b")
    case True
    with Cons.prems have "select_route (Some x) xs a = Some r" by simp
    then have "\<not> preferred x r" by (rule Cons.IH)
    with True show ?thesis using preferred_trans preferred_not_sym by (metis not_preferred_trans)
  next
    case False
    with Cons.prems have "select_route (Some b) xs a = Some r" by auto
    then show ?thesis by (rule Cons.IH)
  qed
qed

lemma select_route_max:
  "select_route best rs a = Some r \<Longrightarrow> r' \<in> set rs \<Longrightarrow> route_matches r' a \<Longrightarrow> \<not> preferred r' r"
proof (induction rs arbitrary: best)
  case Nil
  then show ?case by simp
next
  case (Cons x xs)
  show ?case
  proof (cases "route_matches x a \<and> (case best of None \<Rightarrow> True | Some b \<Rightarrow> preferred x b)")
    case True
    with Cons.prems(1) have sel: "select_route (Some x) xs a = Some r" by simp
    show ?thesis
    proof (cases "r' = x")
      case True
      with sel show ?thesis by (simp add: select_route_best)
    next
      case False
      with Cons.prems(2) have "r' \<in> set xs" by simp
      from Cons.IH[OF sel this Cons.prems(3)] show ?thesis .
    qed
  next
    case False
    with Cons.prems(1) have sel: "select_route best xs a = Some r" by auto
    show ?thesis
    proof (cases "r' = x")
      case True
      with False Cons.prems(3) obtain b where b: "best = Some b" "\<not> preferred x b"
        by (auto split: option.splits)
      from sel b(1) have "\<not> preferred b r" by (simp add: select_route_best)
      with b(2) True show ?thesis using not_preferred_trans by blast
    next
      case False
      with Cons.prems(2) have "r' \<in> set xs" by simp
      from Cons.IH[OF sel this Cons.prems(3)] show ?thesis .
    qed
  qed
qed

lemma not_preferred_iff:
  "(\<not> preferred r' r) =
     (prefix_len r' \<le> prefix_len r
      \<and> (prefix_len r' = prefix_len r \<longrightarrow>
           metric r \<le> metric r' \<and> (metric r' = metric r \<longrightarrow> ifindex r \<le> ifindex r')))"
  by (auto simp: preferred_def)

lemma lookup_Some:
  assumes "lookup table a = Some r"
  shows "r \<in> set table" and "route_matches r a"
    and "\<forall>r' \<in> set table. route_matches r' a \<longrightarrow> \<not> preferred r' r"
  using assms select_route_mem[of None table a r] select_route_max[of None table a r]
  by (auto simp: lookup_def)

lemma lookup_None: "(lookup table a = None) = (\<forall>r \<in> set table. \<not> route_matches r a)"
  by (simp add: lookup_def select_route_None)

lemma net_10_1_matches: "prefix r = ipv4 10 1 0 0 \<Longrightarrow> prefix_len r = 16 \<Longrightarrow> route_matches r (ipv4 10 1 2 3)"
  by (simp add: route_matches_def net_bits_def ipv4_def)

text \<open>
  Claim C3. For every routing table and every destination, the route that \<open>lookup\<close> selects
  is a route of the table that matches the destination, and no matching route of the
  table has a longer prefix, nor the same prefix length and a lower metric, nor the same
  prefix length and metric and a lower interface index; \<open>lookup\<close> answers ``unreachable''
  exactly when no route matches. In particular, in a table that holds a route for
  10.0.0.0/8 and a route for 10.1.0.0/16, in any order and with any next hops, metrics
  and interfaces, the lookup of 10.1.2.3 selects the /16 route.
\<close>

theorem lookup_longest_prefix:
  "(lookup table a = Some r \<longrightarrow>
      r \<in> set table \<and> route_matches r a
      \<and> (\<forall>r' \<in> set table. route_matches r' a \<longrightarrow>
            prefix_len r' \<le> prefix_len r
            \<and> (prefix_len r' = prefix_len r \<longrightarrow>
                 metric r \<le> metric r' \<and> (metric r' = metric r \<longrightarrow> ifindex r \<le> ifindex r'))))
   \<and> ((lookup table a = None) = (\<forall>r' \<in> set table. \<not> route_matches r' a))
   \<and> (prefix r8 = ipv4 10 0 0 0 \<and> prefix_len r8 = 8 \<and> prefix r16 = ipv4 10 1 0 0 \<and> prefix_len r16 = 16
        \<and> set tbl = {r8, r16} \<longrightarrow> lookup tbl (ipv4 10 1 2 3) = Some r16)"
proof (intro conjI impI)
  assume "lookup table a = Some r"
  then show "r \<in> set table" "route_matches r a"
    "\<forall>r' \<in> set table. route_matches r' a \<longrightarrow>
            prefix_len r' \<le> prefix_len r
            \<and> (prefix_len r' = prefix_len r \<longrightarrow>
                 metric r \<le> metric r' \<and> (metric r' = metric r \<longrightarrow> ifindex r \<le> ifindex r'))"
    using lookup_Some[of table a r] by (simp_all add: not_preferred_iff)
next
  show "(lookup table a = None) = (\<forall>r' \<in> set table. \<not> route_matches r' a)"
    by (rule lookup_None)
next
  assume h: "prefix r8 = ipv4 10 0 0 0 \<and> prefix_len r8 = 8 \<and> prefix r16 = ipv4 10 1 0 0 \<and> prefix_len r16 = 16
        \<and> set tbl = {r8, r16}"
  then have m: "route_matches r16 (ipv4 10 1 2 3)" by (intro net_10_1_matches) blast+
  from h have mem: "r16 \<in> set tbl" by simp
  with m have "lookup tbl (ipv4 10 1 2 3) \<noteq> None" by (auto simp: lookup_None)
  then obtain r where r: "lookup tbl (ipv4 10 1 2 3) = Some r" by auto
  from lookup_Some(3)[OF r] mem m have "\<not> preferred r16 r" by blast
  then have "16 \<le> prefix_len r" using h by (simp add: not_preferred_iff)
  moreover from lookup_Some(1)[OF r] h have "r = r8 \<or> r = r16" by auto
  ultimately have "r = r16" using h by auto
  with r show "lookup tbl (ipv4 10 1 2 3) = Some r16" by simp
qed

theorem lookup_longest_prefix_witness:
  "lookup [net_10, net_10_1] (ipv4 10 1 2 3) = Some net_10_1
   \<and> lookup [net_10_1, net_10] (ipv4 10 1 2 3) = Some net_10_1
   \<and> route_matches net_10 (ipv4 10 1 2 3)
   \<and> prefix_len net_10 \<le> prefix_len net_10_1"
  using lookup_longest_prefix [where table = "[net_10, net_10_1]" and a = "ipv4 10 1 2 3"
      and r = net_10_1 and ?r8.0 = net_10 and ?r16.0 = net_10_1 and tbl = "[net_10_1, net_10]"]
  by (simp add: lookup_def net_10_def net_10_1_def ipv4_def route_matches_def net_bits_def
      preferred_def)

section \<open>Properties of the DNS resolver\<close>

subsection \<open>The invariant holds in every reachable state\<close>

lemma fst_add_waiter: "map fst (add_waiter k w ps) = map fst ps"
  by (induction ps) (auto simp: add_waiter_def)

lemma fst_count_retry: "map fst (count_retry k ps) = map fst ps"
  by (induction ps) (auto simp: count_retry_def)

lemma set_fst_add_waiter: "fst ` set (add_waiter k w ps) = fst ` set ps"
  using fst_add_waiter[of k w ps] by (metis set_map)

lemma set_fst_count_retry: "fst ` set (count_retry k ps) = fst ` set ps"
  using fst_count_retry[of k ps] by (metis set_map)

lemma fst_remove_key: "fst ` set (remove_key k xs) = fst ` set xs - {k}"
  by (auto simp: remove_key_def)

lemma distinct_remove_key: "distinct (map fst xs) \<Longrightarrow> distinct (map fst (remove_key k xs))"
  by (simp add: remove_key_def distinct_map_filter)

lemma map_of_remove_key: "map_of (remove_key k xs) k = None"
  by (simp add: map_of_eq_None_iff fst_remove_key)

lemma map_of_None_fst: "(map_of xs k = None) = (k \<notin> fst ` set xs)"
  by (simp add: map_of_eq_None_iff)

lemma map_of_Some_fst: "map_of xs k = Some v \<Longrightarrow> k \<in> fst ` set xs"
  by (metis map_of_None_fst option.distinct(1))

lemma single_flight_init: "single_flight dns_init"
  by (simp add: single_flight_def dns_init_def)

lemma single_flight_query_or_wait:
  assumes "single_flight s" and "k \<notin> fst ` set (cache s)"
  shows "single_flight (snd (query_or_wait k w s))"
proof (cases "map_of (pending s) k")
  case None
  then have "k \<notin> fst ` set (pending s)" by (simp add: map_of_None_fst)
  with assms None show ?thesis
    by (auto simp: single_flight_def query_or_wait_def)
next
  case (Some q)
  with assms show ?thesis
    by (simp add: single_flight_def query_or_wait_def fst_add_waiter set_fst_add_waiter)
qed

lemma single_flight_evict: "single_flight s \<Longrightarrow> single_flight (evict k s)"
  by (auto simp: single_flight_def evict_def fst_remove_key)

lemma single_flight_resolve: "single_flight s \<Longrightarrow> single_flight (snd (resolve k w now s))"
proof -
  assume inv: "single_flight s"
  show ?thesis
  proof (cases "map_of (cache s) k")
    case None
    then have "k \<notin> fst ` set (cache s)" by (simp add: map_of_None_fst)
    with inv None show ?thesis by (simp add: resolve_def single_flight_query_or_wait)
  next
    case (Some de)
    obtain d e where de: "de = (d, e)" by (cases de)
    show ?thesis
    proof (cases "expired now e")
      case True
      let ?s = "s\<lparr>cache := remove_key k (cache s)\<rparr>"
      have "single_flight ?s" using single_flight_evict[OF inv, of k] by (simp add: evict_def)
      moreover have "k \<notin> fst ` set (cache ?s)" by (simp add: fst_remove_key)
      ultimately have "single_flight (snd (query_or_wait k w ?s))"
        by (rule single_flight_query_or_wait)
      with Some de True show ?thesis by (simp add: resolve_def)
    next
      case False
      with Some de inv show ?thesis by (simp add: resolve_def)
    qed
  qed
qed

lemma single_flight_on_reply: "single_flight s \<Longrightarrow> single_flight (on_reply k d ttl now s)"
  by (auto simp: single_flight_def on_reply_def fst_remove_key distinct_remove_key split: option.splits)

lemma single_flight_on_no_response: "single_flight s \<Longrightarrow> single_flight (on_no_response lim k s)"
  by (auto simp: single_flight_def on_no_response_def fst_remove_key distinct_remove_key
      fst_count_retry set_fst_count_retry split: option.splits)

lemma single_flight_step: "single_flight s \<Longrightarrow> single_flight (dns_step lim s ev)"
  by (cases ev) (simp_all add: single_flight_resolve single_flight_on_reply
      single_flight_on_no_response single_flight_evict)

lemma single_flight_foldl: "single_flight s \<Longrightarrow> single_flight (foldl (dns_step lim) s evs)"
  by (induction evs arbitrary: s) (simp_all add: single_flight_step)

lemma single_flight_run: "single_flight (dns_run lim evs)"
  by (simp add: dns_run_def single_flight_foldl single_flight_init)

subsection \<open>What a call of resolve does\<close>

lemma map_of_add_waiter:
  "map_of ps k = Some (ws, n) \<Longrightarrow> map_of (add_waiter k w ps) k = Some (ws @ [w], n)"
  by (induction ps) (auto simp: add_waiter_def split: if_splits)

lemma at_most_one_distinct:
  "distinct (map fst xs) \<Longrightarrow> length (filter (\<lambda>q. fst q = k) xs) \<le> 1"
  by (induction xs) (auto simp: filter_empty_conv image_iff)

lemma query_or_wait_pending:
  assumes "map_of (pending s) k = Some (ws, n)"
  shows "query_or_wait k w s = (Waiting, s\<lparr>pending := add_waiter k w (pending s)\<rparr>)"
  using assms by (simp add: query_or_wait_def)

lemma query_or_wait_fresh:
  assumes "map_of (pending s) k = None"
  shows "query_or_wait k w s = (Waiting, s\<lparr>pending := pending s @ [(k, [w], 0)], wire := wire s @ [k]\<rparr>)"
  using assms by (simp add: query_or_wait_def)

lemma pending_not_cached:
  assumes "single_flight s" and "map_of (pending s) k = Some q"
  shows "map_of (cache s) k = None"
proof -
  from assms(2) have "k \<in> fst ` set (pending s)" by (rule map_of_Some_fst)
  with assms(1) have "k \<notin> fst ` set (cache s)" by (auto simp: single_flight_def)
  then show ?thesis by (simp add: map_of_None_fst)
qed

lemma cached_not_pending:
  assumes "single_flight s" and "map_of (cache s) k = Some v"
  shows "map_of (pending s) k = None"
proof -
  from assms(2) have "k \<in> fst ` set (cache s)" by (rule map_of_Some_fst)
  with assms(1) have "k \<notin> fst ` set (pending s)" by (auto simp: single_flight_def)
  then show ?thesis by (simp add: map_of_None_fst)
qed

lemma resolve_expired:
  assumes "map_of (cache s) k = Some (d, e)" and "e < now" and "map_of (pending s) k = None"
  shows "resolve k w now s =
           (Waiting, s\<lparr>cache := remove_key k (cache s),
                        pending := pending s @ [(k, [w], 0)], wire := wire s @ [k]\<rparr>)"
  using assms by (simp add: resolve_def expired_def query_or_wait_def)

lemma resolve_Hit:
  "fst (resolve k w now s) = Hit d \<Longrightarrow> \<exists>e. map_of (cache s) k = Some (d, e) \<and> now \<le> e"
  by (auto simp: resolve_def expired_def query_or_wait_def split: option.splits if_splits)

lemmas dns_defs = dns_run_def dns_init_def resolve_def query_or_wait_def on_reply_def
  on_no_response_def evict_def expired_def remove_key_def add_waiter_def count_retry_def example_org_def

text \<open>
  Claim C5. In every state the resolver reaches, every key has at most one pending query;
  and a call of \<open>resolve\<close> for a key whose query is outstanding (the key is then not in the
  cache) puts no query on the network: it returns without data, the pending table keeps
  its keys, and the caller is added at the end of that query's waiter list.
\<close>

theorem dns_single_flight:
  assumes "s = dns_run retry_limit evs"
  shows "length (filter (\<lambda>q. fst q = k) (pending s)) \<le> 1
    \<and> (map_of (pending s) k = Some (ws, n) \<longrightarrow>
          fst (resolve k w now s) = Waiting
          \<and> wire (snd (resolve k w now s)) = wire s
          \<and> map fst (pending (snd (resolve k w now s))) = map fst (pending s)
          \<and> map_of (pending (snd (resolve k w now s))) k = Some (ws @ [w], n))"
proof (intro conjI impI)
  have inv: "single_flight s" using assms by (simp add: single_flight_run)
  then have "distinct (map fst (pending s))" by (simp add: single_flight_def)
  then show "length (filter (\<lambda>q. fst q = k) (pending s)) \<le> 1"
    by (rule at_most_one_distinct)
  assume p: "map_of (pending s) k = Some (ws, n)"
  with inv have "map_of (cache s) k = None" by (rule pending_not_cached)
  then have r: "resolve k w now s = (Waiting, s\<lparr>pending := add_waiter k w (pending s)\<rparr>)"
    using p by (simp add: resolve_def query_or_wait_pending)
  show "fst (resolve k w now s) = Waiting" by (simp add: r)
  show "wire (snd (resolve k w now s)) = wire s" by (simp add: r)
  show "map fst (pending (snd (resolve k w now s))) = map fst (pending s)"
    by (simp add: r fst_add_waiter)
  show "map_of (pending (snd (resolve k w now s))) k = Some (ws @ [w], n)"
    using p by (simp add: r map_of_add_waiter)
qed

theorem dns_single_flight_witness:
  "map_of (pending (dns_run 2 [Resolve example_org (1::nat) 0] :: (string, nat) dns_state)) example_org
      = Some ([1], 0)
   \<and> fst (resolve example_org 2 5 (dns_run 2 [Resolve example_org (1::nat) 0] :: (string, nat) dns_state)) = Waiting
   \<and> wire (snd (resolve example_org 2 5 (dns_run 2 [Resolve example_org (1::nat) 0] :: (string, nat) dns_state)))
      = [example_org]
   \<and> map_of (pending (snd (resolve example_org 2 5
        (dns_run 2 [Resolve example_org (1::nat) 0] :: (string, nat) dns_state)))) example_org = Some ([1, 2], 0)"
  using dns_single_flight [of "dns_run 2 [Resolve example_org (1::nat) 0] :: (string, nat) dns_state"
      2 "[Resolve example_org 1 0]" example_org "[1]" 0 2 5]
  by (simp add: dns_defs)

text \<open>
  Claim C4. In every state the resolver reaches, a call of \<open>resolve\<close> for a key whose cache
  entry has its expiry behind it does not return the entry: the entry is evicted and one
  query for the key is put on the network. Whatever \<open>resolve\<close> returns from the cache has
  not yet expired. In particular, a record cached by a reply at time \<open>T\<close> with a
  time-to-live of 60 expires at \<open>T + 60\<close>, and a call at any time from \<open>T + 61\<close> on is not
  served from the cache.
\<close>

theorem dns_expired_not_served:
  assumes "s = dns_run retry_limit evs"
  shows "(map_of (cache s) k = Some (d, e) \<and> e < now \<longrightarrow>
            fst (resolve k w now s) = Waiting
            \<and> map_of (cache (snd (resolve k w now s))) k = None
            \<and> wire (snd (resolve k w now s)) = wire s @ [k])
    \<and> (fst (resolve k w now s) = Hit d' \<longrightarrow> (\<exists>e'. map_of (cache s) k = Some (d', e') \<and> now \<le> e'))
    \<and> (map_of (pending s) k \<noteq> None \<and> T + 61 \<le> now' \<longrightarrow>
          map_of (cache (on_reply k r 60 T s)) k = Some (r, T + 60)
          \<and> fst (resolve k w now' (on_reply k r 60 T s)) = Waiting
          \<and> map_of (cache (snd (resolve k w now' (on_reply k r 60 T s)))) k = None
          \<and> wire (snd (resolve k w now' (on_reply k r 60 T s))) = wire s @ [k])"
proof (intro conjI impI)
  have inv: "single_flight s" using assms by (simp add: single_flight_run)
  {
    assume c: "map_of (cache s) k = Some (d, e) \<and> e < now"
    with inv have "map_of (pending s) k = None" by (blast intro: cached_not_pending)
    with c have r: "resolve k w now s =
           (Waiting, s\<lparr>cache := remove_key k (cache s),
                        pending := pending s @ [(k, [w], 0)], wire := wire s @ [k]\<rparr>)"
      by (simp add: resolve_expired)
    show "fst (resolve k w now s) = Waiting" by (simp add: r)
    show "map_of (cache (snd (resolve k w now s))) k = None" by (simp add: r map_of_remove_key)
    show "wire (snd (resolve k w now s)) = wire s @ [k]" by (simp add: r)
  }
  {
    assume "fst (resolve k w now s) = Hit d'"
    then show "\<exists>e'. map_of (cache s) k = Some (d', e') \<and> now \<le> e'" by (rule resolve_Hit)
  }
  {
    assume h: "map_of (pending s) k \<noteq> None \<and> T + 61 \<le> now'"
    let ?s1 = "on_reply k r 60 T s"
    from inv have inv1: "single_flight ?s1" by (rule single_flight_on_reply)
    from h obtain ws n where p: "map_of (pending s) k = Some (ws, n)" by auto
    then have c1: "map_of (cache ?s1) k = Some (r, T + 60)" by (simp add: on_reply_def)
    from p have w1: "wire ?s1 = wire s" by (simp add: on_reply_def)
    from inv1 c1 have "map_of (pending ?s1) k = None" by (rule cached_not_pending)
    with c1 h have r: "resolve k w now' ?s1 =
           (Waiting, ?s1\<lparr>cache := remove_key k (cache ?s1),
                        pending := pending ?s1 @ [(k, [w], 0)], wire := wire ?s1 @ [k]\<rparr>)"
      by (intro resolve_expired) auto
    show "map_of (cache ?s1) k = Some (r, T + 60)" by (rule c1)
    show "fst (resolve k w now' ?s1) = Waiting" by (simp add: r)
    show "map_of (cache (snd (resolve k w now' ?s1))) k = None" by (simp add: r map_of_remove_key)
    show "wire (snd (resolve k w now' ?s1)) = wire s @ [k]" by (simp add: r w1)
  }
qed

theorem dns_expired_not_served_witness:
  "map_of (cache (dns_run 2 [Resolve example_org (1::nat) 100, Reply example_org ''93.184.216.34'' 60 100]))
      example_org = Some (''93.184.216.34'', 160)
   \<and> fst (resolve example_org (2::nat) 161
        (dns_run 2 [Resolve example_org 1 100, Reply example_org ''93.184.216.34'' 60 100])) = Waiting
   \<and> wire (snd (resolve example_org (2::nat) 161
        (dns_run 2 [Resolve example_org 1 100, Reply example_org ''93.184.216.34'' 60 100])))
      = [example_org, example_org]
   \<and> fst (resolve example_org (2::nat) 160
        (dns_run 2 [Resolve example_org 1 100, Reply example_org ''93.184.216.34'' 60 100]))
      = Hit ''93.184.216.34''"
  using dns_expired_not_served [of
      "dns_run 2 [Resolve example_org (1::nat) 100, Reply example_org ''93.184.216.34'' 60 100]"
      2 "[Resolve example_org 1 100, Reply example_org ''93.184.216.34'' 60 100]"
      example_org "''93.184.216.34''" 160 161 2 "''93.184.216.34''" 100 161 "''x''"]
  by (simp add: dns_defs)

end
